theory Spec2Isabelle
  imports Main "HOL-Library.AList"
begin

section \<open>Python strings\<close>

text \<open>
  A Python \<open>str\<close> is a sequence of Unicode code points.  A code point is a natural
  number, so nothing is lost above Latin-1 (a \<open>char\<close> of HOL is one byte).  Literals
  are written with \<open>str\<close>, which reads the ASCII text of a HOL string literal.
\<close>

type_synonym pychar = nat
type_synonym pystr = "pychar list"

definition str :: "string \<Rightarrow> pystr" where
  "str s = map of_char s"

definition NL :: pychar where "NL = 10"
definition DQUOTE :: pychar where "DQUOTE = 34"
definition SQUOTE :: pychar where "SQUOTE = 39"
definition COMMA :: pychar where "COMMA = 44"
definition DASH :: pychar where "DASH = 45"
definition COLON :: pychar where "COLON = 58"
definition LBRACKET :: pychar where "LBRACKET = 91"
definition RBRACKET :: pychar where "RBRACKET = 93"
definition DOT :: pychar where "DOT = 46"
definition SLASH :: pychar where "SLASH = 47"

text \<open>
  \<open>str.isspace\<close> of CPython for one code point: the table of
  \<open>_PyUnicode_IsWhitespace\<close> (tab to carriage return, the four separators
  \<open>0x1C\<close> to \<open>0x1F\<close>, space, NEL, NBSP and the Unicode space separators).
\<close>

definition isspace :: "pychar \<Rightarrow> bool" where
  "isspace c \<longleftrightarrow>
     (9 \<le> c \<and> c \<le> 13) \<or> (28 \<le> c \<and> c \<le> 32) \<or> c = 133 \<or> c = 160 \<or> c = 5760 \<or>
     (8192 \<le> c \<and> c \<le> 8202) \<or> c = 8232 \<or> c = 8233 \<or> c = 8239 \<or> c = 8287 \<or> c = 12288"

text \<open>\<open>s.strip()\<close>: whitespace removed at both ends.\<close>

definition strip :: "pystr \<Rightarrow> pystr" where
  "strip s = rev (dropWhile isspace (rev (dropWhile isspace s)))"

text \<open>\<open>s.startswith(p)\<close> and \<open>s.endswith(p)\<close>.\<close>

definition startswith :: "pystr \<Rightarrow> pystr \<Rightarrow> bool" where
  "startswith s p \<longleftrightarrow> take (length p) s = p"

definition endswith :: "pystr \<Rightarrow> pystr \<Rightarrow> bool" where
  "endswith s p \<longleftrightarrow> length p \<le> length s \<and> drop (length s - length p) s = p"

text \<open>
  The slice \<open>s[1:-1]\<close>: from index 1 up to, not including, index \<open>len(s) - 1\<close>; empty
  when the string has fewer than two characters.
\<close>

definition slice_1_m1 :: "pystr \<Rightarrow> pystr" where
  "slice_1_m1 s = drop 1 (take (length s - 1) s)"

text \<open>
  \<open>s.split(c)\<close> for a one-character separator: every occurrence splits, and the
  result always has at least one piece (\<open>''''.split(c) == ['''']\<close>).
\<close>

fun split :: "pychar \<Rightarrow> pystr \<Rightarrow> pystr list" where
  "split c [] = [[]]"
| "split c (x # xs) =
     (if x = c then [] # split c xs
      else (case split c xs of
              [] \<Rightarrow> [[x]]
            | piece # pieces \<Rightarrow> (x # piece) # pieces))"

text \<open>
  \<open>s.split(c, 1)\<close>: at most one split, at the first occurrence; one piece when the
  separator is absent.
\<close>

definition split1 :: "pychar \<Rightarrow> pystr \<Rightarrow> pystr list" where
  "split1 c s =
     (if c \<in> set s then [takeWhile (\<lambda>x. x \<noteq> c) s, drop 1 (dropWhile (\<lambda>x. x \<noteq> c) s)]
      else [s])"

section \<open>The front-matter parser of \<open>create_issues_from_docs.py\<close>\<close>

text \<open>
  A metadata value is a string or a list of strings.  The metadata dictionary is an
  association list in insertion order: assigning to a key that is present replaces the
  value in place, assigning to a new key appends, as a Python \<open>dict\<close> does
  (\<open>AList.update\<close>).
\<close>

datatype meta_value = Str pystr | Lst "pystr list"

type_synonym metadata = "(pystr \<times> meta_value) list"

datatype py_error =
  ValueError | TypeError | KeyError | JSONDecodeError | FileNotFoundError | CalledProcessError |
  OSError

text \<open>
  \<open>re.match(r'^---\n(.*?)\n---\n(.*)', content, re.DOTALL)\<close>.  With \<open>DOTALL\<close> the
  last group takes whatever follows, so the match succeeds exactly when the text
  starts with the opening marker line and the closing marker \<open>\n---\n\<close> occurs
  after it; the lazy first group stops at the first such occurrence.
  \<open>find_first needle s\<close> cuts \<open>s\<close> around the first occurrence of \<open>needle\<close>.
\<close>

fun find_first :: "pystr \<Rightarrow> pystr \<Rightarrow> (pystr \<times> pystr) option" where
  "find_first needle [] = (if needle = [] then Some ([], []) else None)"
| "find_first needle (x # xs) =
     (if startswith (x # xs) needle then Some ([], drop (length needle) (x # xs))
      else (case find_first needle xs of
              None \<Rightarrow> None
            | Some (before, after) \<Rightarrow> Some (x # before, after)))"

definition MARKER :: pystr where
  "MARKER = [DASH, DASH, DASH]"

definition OPENING :: pystr where
  "OPENING = MARKER @ [NL]"

definition CLOSING :: pystr where
  "CLOSING = [NL] @ MARKER @ [NL]"

definition re_match :: "pystr \<Rightarrow> (pystr \<times> pystr) option" where
  "re_match content =
     (if startswith content OPENING
      then find_first CLOSING (drop (length OPENING) content)
      else None)"

text \<open>
  Removing surrounding quotes, as the source tests it: the text starts and ends with
  a double quote, or starts and ends with a single quote.
\<close>

definition quoted :: "pystr \<Rightarrow> bool" where
  "quoted s \<longleftrightarrow>
     (startswith s [DQUOTE] \<and> endswith s [DQUOTE]) \<or>
     (startswith s [SQUOTE] \<and> endswith s [SQUOTE])"

text \<open>The loop over the parts of a bracketed value, appending to \<open>items\<close>.\<close>

fun parse_parts :: "pystr list \<Rightarrow> pystr list \<Rightarrow> pystr list" where
  "parse_parts items [] = items"
| "parse_parts items (part # parts) =
     (let part = strip part;
          part = (if quoted part then slice_1_m1 part else part)
      in parse_parts (items @ [part]) parts)"

text \<open>The value of one line, from its trimmed text.\<close>

definition parse_value :: "pystr \<Rightarrow> meta_value" where
  "parse_value v =
     (if startswith v [LBRACKET] \<and> endswith v [RBRACKET] then
        (let inner = slice_1_m1 v;
             items = (if inner \<noteq> [] then parse_parts [] (split COMMA inner) else [])
         in Lst items)
      else
        (let v = (if quoted v then slice_1_m1 v else v)
         in Str v))"

text \<open>
  \<open>key, value = line.split(':', 1)\<close> unpacks a list of exactly two elements; any other
  length raises \<open>ValueError\<close>.
\<close>

fun unpack2 :: "pystr list \<Rightarrow> py_error + (pystr \<times> pystr)" where
  "unpack2 [a, b] = Inr (a, b)"
| "unpack2 _ = Inl ValueError"

text \<open>
  The body of the loop over the lines of the block, for one line: \<open>None\<close> when the
  line is skipped (blank after trimming, or without a colon), else the key and the
  value that are stored.
\<close>

definition parse_line :: "pystr \<Rightarrow> py_error + (pystr \<times> meta_value) option" where
  "parse_line raw_line =
     (let line = strip raw_line in
      if line = [] \<or> COLON \<notin> set line then Inr None
      else
        (case unpack2 (split1 COLON line) of
           Inl e \<Rightarrow> Inl e
         | Inr (key, v) \<Rightarrow> Inr (Some (strip key, parse_value (strip v)))))"

fun parse_lines :: "metadata \<Rightarrow> pystr list \<Rightarrow> py_error + metadata" where
  "parse_lines md [] = Inr md"
| "parse_lines md (line # lines) =
     (case parse_line line of
        Inl e \<Rightarrow> Inl e
      | Inr None \<Rightarrow> parse_lines md lines
      | Inr (Some (key, v)) \<Rightarrow> parse_lines (AList.update key v md) lines)"

definition parse_frontmatter :: "pystr \<Rightarrow> py_error + (metadata \<times> pystr)" where
  "parse_frontmatter content =
     (case re_match content of
        None \<Rightarrow> Inr ([], content)
      | Some (frontmatter_raw, rest) \<Rightarrow>
          (case parse_lines [] (split NL frontmatter_raw) of
             Inl e \<Rightarrow> Inl e
           | Inr md \<Rightarrow> Inr (md, strip rest)))"

section \<open>The duplicate check and the issue command of \<open>create_issues_from_docs.py\<close>\<close>















text \<open>
  The issue command of \<open>main\<close>.  \<open>metadata.get('labels', [])\<close> is the stored value or
  the empty list; \<open>for label in labels\<close> iterates a list by its elements and a string
  by its characters.  The arguments of the command are Python values: the title and
  the labels are whatever the metadata holds.
\<close>

definition get_labels :: "metadata \<Rightarrow> meta_value" where
  "get_labels md = (case map_of md (str ''labels'') of None \<Rightarrow> Lst [] | Some v \<Rightarrow> v)"

fun iter_value :: "meta_value \<Rightarrow> meta_value list" where
  "iter_value (Lst items) = map Str items"
| "iter_value (Str s) = map (\<lambda>c. Str [c]) s"

fun extend_labels :: "meta_value list \<Rightarrow> meta_value list \<Rightarrow> meta_value list" where
  "extend_labels cmd [] = cmd"
| "extend_labels cmd (label # labels) = extend_labels (cmd @ [Str (str ''--label''), label]) labels"

definition create_cmd :: "meta_value \<Rightarrow> pystr \<Rightarrow> meta_value \<Rightarrow> meta_value list" where
  "create_cmd title body labels =
     extend_labels
       [Str (str ''gh''), Str (str ''issue''), Str (str ''create''),
        Str (str ''--title''), title, Str (str ''--body''), Str body]
       (iter_value labels)"

text \<open>
  The command \<open>main\<close> builds for one document, \<open>None\<close> when the document is skipped for
  want of a title.
\<close>

definition document_cmd :: "pystr \<Rightarrow> py_error + meta_value list option" where
  "document_cmd content =
     (case parse_frontmatter content of
        Inl e \<Rightarrow> Inl e
      | Inr (md, body) \<Rightarrow>
          (if md = [] then Inr None
           else
             (case map_of md (str ''title'') of
                None \<Rightarrow> Inr None
              | Some title \<Rightarrow> Inr (Some (create_cmd title body (get_labels md))))))"

section \<open>The converter of \<open>convert_md_to_docx.py\<close>\<close>














section \<open>Writing metadata back\<close>

text \<open>
  Modelled from the spec: the repository has no function that writes metadata; the
  spec speaks of re-serializing the metadata into \<open>key: value\<close> lines, a list value in
  bracketed, comma-separated, quoted form, between \<open>---\<close> markers.  \<open>join_with\<close> is
  \<open>sep.join(pieces)\<close>; a scalar is written as it is, a list as \<open>["a", "b"]\<close>.
\<close>

fun join_with :: "pystr \<Rightarrow> pystr list \<Rightarrow> pystr" where
  "join_with sep [] = []"
| "join_with sep [piece] = piece"
| "join_with sep (piece # pieces) = piece @ sep @ join_with sep pieces"

definition quote_item :: "pystr \<Rightarrow> pystr" where
  "quote_item item = [DQUOTE] @ item @ [DQUOTE]"


fun serialize_value :: "meta_value \<Rightarrow> pystr" where
  "serialize_value (Str s) = s"
| "serialize_value (Lst items) =
     [LBRACKET] @ join_with (str '', '') (map quote_item items) @ [RBRACKET]"

definition serialize_line :: "pystr \<times> meta_value \<Rightarrow> pystr" where
  "serialize_line entry = fst entry @ str '': '' @ serialize_value (snd entry)"

definition serialize :: "metadata \<Rightarrow> pystr" where
  "serialize md = OPENING @ join_with [NL] (map serialize_line md) @ CLOSING"

text \<open>
  Modelled from the spec: the values the format supports.  Every list value is
  supported.  A scalar is supported when the parser reads its text back as the same
  scalar: it is trimmed, it is not wrapped in brackets and it is not wrapped in
  quotes.
\<close>

fun supported_value :: "meta_value \<Rightarrow> bool" where
  "supported_value (Lst items) = True"
| "supported_value (Str s) =
     (strip s = s \<and> \<not> (startswith s [LBRACKET] \<and> endswith s [RBRACKET]) \<and> \<not> quoted s)"

text \<open>
  The shape of the keys and values that the parser stores: a key is trimmed and has
  no colon and no line break; a scalar has no line break; an item of a list has no
  comma and no line break.
\<close>

definition parsed_key :: "pystr \<Rightarrow> bool" where
  "parsed_key k \<longleftrightarrow> COLON \<notin> set k \<and> NL \<notin> set k \<and> strip k = k"

fun parsed_value :: "meta_value \<Rightarrow> bool" where
  "parsed_value (Str s) = (NL \<notin> set s)"
| "parsed_value (Lst items) = list_all (\<lambda>i. COMMA \<notin> set i \<and> NL \<notin> set i) items"

definition parsed_entry :: "pystr \<times> meta_value \<Rightarrow> bool" where
  "parsed_entry entry \<longleftrightarrow> parsed_key (fst entry) \<and> parsed_value (snd entry)"

section \<open>Evaluation on concrete texts\<close>

lemmas chars_defs =
  NL_def DQUOTE_def SQUOTE_def COMMA_def DASH_def COLON_def LBRACKET_def RBRACKET_def
  DOT_def SLASH_def

lemmas parser_defs =
  str_def chars_defs MARKER_def OPENING_def CLOSING_def startswith_def endswith_def strip_def
  isspace_def slice_1_m1_def split1_def quoted_def parse_value_def parse_line_def
  re_match_def parse_frontmatter_def Let_def

section \<open>The marker search\<close>

lemma find_first_Some:
  "find_first needle s = Some (before, after) \<Longrightarrow> s = before @ needle @ after"
proof (induction s arbitrary: before)
  case Nil
  then show ?case by (simp split: if_splits)
next
  case (Cons x xs)
  show ?case
  proof (cases "startswith (x # xs) needle")
    case True
    with Cons.prems have "before = []" "after = drop (length needle) (x # xs)"
      by simp_all
    moreover from True have "take (length needle) (x # xs) = needle"
      by (simp add: startswith_def)
    ultimately show ?thesis
      by (metis append_Nil append_take_drop_id)
  next
    case False
    with Cons.prems obtain b' where
      "find_first needle xs = Some (b', after)" "before = x # b'"
      by (auto split: option.splits)
    with Cons.IH show ?thesis by simp
  qed
qed

lemma re_match_Some:
  assumes "re_match content = Some (block, rest)"
  shows "content = OPENING @ block @ CLOSING @ rest"
proof -
  from assms have st: "startswith content OPENING"
    and ff: "find_first CLOSING (drop (length OPENING) content) = Some (block, rest)"
    by (auto simp: re_match_def split: if_splits)
  from st have "content = OPENING @ drop (length OPENING) content"
    by (metis append_take_drop_id startswith_def)
  with find_first_Some [OF ff] show ?thesis by simp
qed

lemma unpack2_split1:
  "COLON \<in> set line \<Longrightarrow> \<exists>k v. unpack2 (split1 COLON line) = Inr (k, v)"
  by (simp add: split1_def)

lemma parse_line_total: "\<exists>r. parse_line line = Inr r"
proof (cases "strip line = [] \<or> COLON \<notin> set (strip line)")
  case True
  then show ?thesis by (auto simp: parse_line_def Let_def)
next
  case False
  then obtain k v where "unpack2 (split1 COLON (strip line)) = Inr (k, v)"
    using unpack2_split1 by blast
  with False show ?thesis by (simp add: parse_line_def Let_def)
qed

lemma parse_lines_total: "\<exists>md'. parse_lines md lines = Inr md'"
proof (induction lines arbitrary: md)
  case Nil
  show ?case by simp
next
  case (Cons line lines)
  obtain r where r: "parse_line line = Inr r"
    using parse_line_total by blast
  show ?case
  proof (cases r)
    case None
    with r Cons.IH show ?thesis by simp
  next
    case (Some kv)
    with r Cons.IH [of "AList.update (fst kv) (snd kv) md"] show ?thesis
      by (cases kv) simp
  qed
qed

lemma parse_frontmatter_total: "\<exists>md body. parse_frontmatter content = Inr (md, body)"
proof (cases "re_match content")
  case None
  then show ?thesis by (simp add: parse_frontmatter_def)
next
  case (Some m)
  obtain block rest where m: "m = (block, rest)" by (cases m)
  obtain md where "parse_lines [] (split NL block) = Inr md"
    using parse_lines_total by blast
  with Some m show ?thesis by (simp add: parse_frontmatter_def)
qed

section \<open>Lines and marker lines\<close>

lemma split_not_Nil: "split c s \<noteq> []"
  by (induction s) (auto split: list.splits)

lemma split_append_sep: "split c (a @ c # b) = split c a @ split c b"
proof (induction a)
  case Nil
  show ?case by simp
next
  case (Cons x a)
  then show ?case
    using split_not_Nil [of c a] by (cases "split c a") auto
qed

lemma split_no_sep: "c \<notin> set s \<Longrightarrow> split c s = [s]"
  by (induction s) auto

lemma set_butlast_tl: "set (butlast (tl l)) \<subseteq> set (butlast l)"
  by (cases l) (auto dest: in_set_butlastD)

lemma split_Cons_inner:
  "set (butlast (tl (split c xs))) \<subseteq> set (butlast (tl (split c (x # xs))))"
proof (cases "x = c")
  case True
  then show ?thesis using set_butlast_tl [of "split c xs"] by simp
next
  case False
  then show ?thesis
    using split_not_Nil [of c xs] by (cases "split c xs") auto
qed

lemma split_MARKER: "split NL MARKER = [MARKER]"
  by (simp add: MARKER_def chars_defs)

lemma CLOSING_eq: "CLOSING = NL # MARKER @ [NL]"
  by (simp add: CLOSING_def MARKER_def)

lemma startswith_CLOSING_lines:
  assumes "startswith h CLOSING"
  shows "MARKER \<in> set (butlast (tl (split NL h)))"
proof -
  from assms have "h = CLOSING @ drop (length CLOSING) h"
    by (metis append_take_drop_id startswith_def)
  then obtain r where h: "h = NL # MARKER @ NL # r"
    by (simp add: CLOSING_eq)
  have "split NL h = [] # MARKER # split NL r"
    unfolding h by (simp add: split_append_sep split_MARKER)
  then show ?thesis
    using split_not_Nil [of NL r] by simp
qed

lemma find_first_CLOSING_None:
  "MARKER \<notin> set (butlast (tl (split NL h))) \<Longrightarrow> find_first CLOSING h = None"
proof (induction h)
  case Nil
  show ?case by (simp add: CLOSING_def)
next
  case (Cons x xs)
  from Cons.prems have "\<not> startswith (x # xs) CLOSING"
    using startswith_CLOSING_lines by blast
  moreover from Cons.prems have "MARKER \<notin> set (butlast (tl (split NL xs)))"
    using split_Cons_inner [of NL xs x] by blast
  then have "find_first CLOSING xs = None" by (rule Cons.IH)
  ultimately show ?case by simp
qed

lemma re_match_None_lines:
  "MARKER \<notin> set (butlast (tl (split NL h))) \<Longrightarrow> re_match (OPENING @ h) = None"
  by (simp add: re_match_def find_first_CLOSING_None)

section \<open>No front matter\<close>

text \<open>
  Claim C1.  Parsing returns a result for every input text, never an error.  When the
  text is not of the form opening marker line, block, closing marker line (a line
  break, \<open>---\<close> and a line break), rest, the result is the empty metadata and the whole
  input text, unchanged, as the body.
\<close>

theorem parse_frontmatter_without_block:
  "(\<exists>md body. parse_frontmatter content = Inr (md, body)) \<and>
   ((\<nexists>block rest. content = OPENING @ block @ CLOSING @ rest) \<longrightarrow>
      parse_frontmatter content = Inr ([], content))"
proof (intro conjI impI)
  show "\<exists>md body. parse_frontmatter content = Inr (md, body)"
    by (rule parse_frontmatter_total)
next
  assume none: "\<nexists>block rest. content = OPENING @ block @ CLOSING @ rest"
  have "re_match content = None"
  proof (cases "re_match content")
    case None
    then show ?thesis .
  next
    case (Some m)
    then have "content = OPENING @ fst m @ CLOSING @ snd m"
      by (cases m) (simp add: re_match_Some)
    with none show ?thesis by blast
  qed
  then show "parse_frontmatter content = Inr ([], content)"
    by (simp add: parse_frontmatter_def)
qed

theorem parse_frontmatter_without_block_witness:
  "(\<nexists>block rest. str ''# Notes\<newline>---\<newline>plain text'' = OPENING @ block @ CLOSING @ rest) \<and>
   parse_frontmatter (str ''# Notes\<newline>---\<newline>plain text'') =
     Inr ([], str ''# Notes\<newline>---\<newline>plain text'')"
proof -
  have h: "\<nexists>block rest. str ''# Notes\<newline>---\<newline>plain text'' = OPENING @ block @ CLOSING @ rest"
    by (simp add: str_def OPENING_def MARKER_def chars_defs)
  with parse_frontmatter_without_block [of "str ''# Notes\<newline>---\<newline>plain text''"]
  show ?thesis by blast
qed

section \<open>Marker lines that do not delimit a block\<close>

text \<open>
  Where texts with an empty block, or with a closing marker at the very end, are
  parsed as having no front matter (empty metadata, the whole text as body): a text
  whose opening marker line is directly followed by a second marker line, when no
  line after these two is a \<open>---\<close> line ended by a line break; a text whose last
  characters are \<open>---\<close> after a line break, when no line of the block after its first
  is \<open>---\<close>; the text that consists of the two marker lines alone, the second
  without a line break.
\<close>

lemma no_front_matter_markers:
  "(MARKER \<notin> set (butlast (split NL rest)) \<longrightarrow>
      parse_frontmatter (OPENING @ MARKER @ NL # rest) = Inr ([], OPENING @ MARKER @ NL # rest)) \<and>
   (MARKER \<notin> set (tl (split NL block)) \<longrightarrow>
      parse_frontmatter (OPENING @ block @ NL # MARKER) = Inr ([], OPENING @ block @ NL # MARKER)) \<and>
   parse_frontmatter (OPENING @ MARKER) = Inr ([], OPENING @ MARKER)"
proof (intro conjI impI)
  assume "MARKER \<notin> set (butlast (split NL rest))"
  then have "MARKER \<notin> set (butlast (tl (split NL (MARKER @ NL # rest))))"
    by (simp add: split_append_sep split_MARKER)
  then have "re_match (OPENING @ MARKER @ NL # rest) = None"
    by (rule re_match_None_lines)
  then show "parse_frontmatter (OPENING @ MARKER @ NL # rest) = Inr ([], OPENING @ MARKER @ NL # rest)"
    by (simp add: parse_frontmatter_def)
next
  assume "MARKER \<notin> set (tl (split NL block))"
  then have "MARKER \<notin> set (butlast (tl (split NL (block @ NL # MARKER))))"
    using split_not_Nil [of NL block]
    by (cases "split NL block") (simp_all add: split_append_sep split_MARKER butlast_append)
  then have "re_match (OPENING @ block @ NL # MARKER) = None"
    by (rule re_match_None_lines)
  then show "parse_frontmatter (OPENING @ block @ NL # MARKER) = Inr ([], OPENING @ block @ NL # MARKER)"
    by (simp add: parse_frontmatter_def)
next
  have "MARKER \<notin> set (butlast (tl (split NL MARKER)))"
    by (simp add: split_MARKER)
  then have "re_match (OPENING @ MARKER) = None"
    by (rule re_match_None_lines)
  then show "parse_frontmatter (OPENING @ MARKER) = Inr ([], OPENING @ MARKER)"
    by (simp add: parse_frontmatter_def)
qed

lemma no_front_matter_markers_example:
  "MARKER \<notin> set (butlast (split NL (str ''text\<newline>---''))) \<and>
   parse_frontmatter (str ''---\<newline>---\<newline>text\<newline>---'') = Inr ([], str ''---\<newline>---\<newline>text\<newline>---'') \<and>
   MARKER \<notin> set (tl (split NL (str ''title: T''))) \<and>
   parse_frontmatter (str ''---\<newline>title: T\<newline>---'') = Inr ([], str ''---\<newline>title: T\<newline>---'')"
proof -
  have a: "MARKER \<notin> set (butlast (split NL (str ''text\<newline>---'')))"
    by (simp add: str_def MARKER_def chars_defs)
  have b: "MARKER \<notin> set (tl (split NL (str ''title: T'')))"
    by (simp add: str_def MARKER_def chars_defs)
  have e1: "OPENING @ MARKER @ NL # str ''text\<newline>---'' = str ''---\<newline>---\<newline>text\<newline>---''"
    by (simp add: str_def OPENING_def MARKER_def chars_defs)
  have e2: "OPENING @ str ''title: T'' @ NL # MARKER = str ''---\<newline>title: T\<newline>---''"
    by (simp add: str_def OPENING_def MARKER_def chars_defs)
  from no_front_matter_markers [of "str ''text\<newline>---''" "str ''title: T''"] a b
  show ?thesis unfolding e1 e2 by blast
qed

text \<open>
  Claim C9, at the text \<open>---\<close>, \<open>---\<close>, \<open>title: T\<close>, \<open>---\<close>, \<open>body\<close>.  The opening marker
  line is directly followed by a marker line, so by the claim the text has no front
  matter.  The parser does not return the empty metadata and the whole text: the
  pattern needs a line break before the closing \<open>---\<close> besides the one that ends the
  opening line, so it passes over the second marker line and takes the block up to
  the third; the result has the title \<open>T\<close> and the body \<open>body\<close>.
\<close>

theorem second_marker_line_is_passed_over:
  "parse_frontmatter (str ''---\<newline>---\<newline>title: T\<newline>---\<newline>body'') =
     Inr ([(str ''title'', Str (str ''T''))], str ''body'') \<and>
   parse_frontmatter (str ''---\<newline>---\<newline>title: T\<newline>---\<newline>body'') \<noteq>
     Inr ([], str ''---\<newline>---\<newline>title: T\<newline>---\<newline>body'')"
  by (simp add: parser_defs)

section \<open>Duplicate keys\<close>

lemma parse_lines_append:
  "parse_lines md (a @ b) =
     (case parse_lines md a of Inl e \<Rightarrow> Inl e | Inr md' \<Rightarrow> parse_lines md' b)"
proof (induction a arbitrary: md)
  case Nil
  show ?case by simp
next
  case (Cons line a)
  obtain r where r: "parse_line line = Inr r"
    using parse_line_total by blast
  show ?case
  proof (cases r)
    case None
    with r Cons.IH show ?thesis by simp
  next
    case (Some kv)
    with r Cons.IH show ?thesis by (cases kv) simp
  qed
qed

lemma parse_lines_distinct:
  "parse_lines md lines = Inr md' \<Longrightarrow> distinct (map fst md) \<Longrightarrow> distinct (map fst md')"
proof (induction lines arbitrary: md)
  case Nil
  then show ?case by simp
next
  case (Cons line lines)
  obtain r where r: "parse_line line = Inr r"
    using parse_line_total by blast
  show ?case
  proof (cases r)
    case None
    with r Cons show ?thesis by simp
  next
    case (Some kv)
    obtain k v where kv: "kv = (k, v)" by (cases kv)
    from Cons.prems(1) r Some kv have "parse_lines (AList.update k v md) lines = Inr md'"
      by simp
    moreover from Cons.prems(2) have "distinct (map fst (AList.update k v md))"
      by (simp add: distinct_update)
    ultimately show ?thesis by (rule Cons.IH)
  qed
qed

lemma parse_lines_keeps:
  assumes "parse_lines md lines = Inr md'"
    and "map_of md key = Some v"
    and "\<forall>l \<in> set lines. \<forall>v'. parse_line l \<noteq> Inr (Some (key, v'))"
  shows "map_of md' key = Some v"
  using assms
proof (induction lines arbitrary: md)
  case Nil
  then show ?case by simp
next
  case (Cons line lines)
  obtain r where r: "parse_line line = Inr r"
    using parse_line_total by blast
  show ?case
  proof (cases r)
    case None
    with r Cons show ?thesis by simp
  next
    case (Some kv)
    obtain k w where kv: "kv = (k, w)" by (cases kv)
    from Cons.prems(3) r Some kv have "k \<noteq> key" by auto
    with Cons.prems(2) have "map_of (AList.update k w md) key = Some v"
      by (simp add: update_conv')
    moreover from Cons.prems(1) r Some kv have "parse_lines (AList.update k w md) lines = Inr md'"
      by simp
    moreover from Cons.prems(3) have "\<forall>l \<in> set lines. \<forall>v'. parse_line l \<noteq> Inr (Some (key, v'))"
      by simp
    ultimately show ?thesis using Cons.IH by blast
  qed
qed

lemma one_entry:
  "distinct (map fst md) \<Longrightarrow> map_of md key = Some v \<Longrightarrow>
   filter (\<lambda>e. fst e = key) md = [(key, v)]"
proof (induction md)
  case Nil
  then show ?case by simp
next
  case (Cons e md)
  show ?case
  proof (cases "fst e = key")
    case True
    with Cons.prems have "e = (key, v)" by (cases e) simp
    moreover from True Cons.prems(1) have "key \<notin> fst ` set md" by auto
    then have "filter (\<lambda>e. fst e = key) md = []"
      by (auto simp: filter_empty_conv)
    ultimately show ?thesis by simp
  next
    case False
    with Cons show ?thesis by (cases e) auto
  qed
qed

text \<open>
  Claim C6.  In the metadata parsed from a block, a key has exactly one entry, and its
  value is the value of the last line of the block that sets this key: when a line
  sets \<open>key\<close> to \<open>v\<close> and no later line of the block sets \<open>key\<close>, the entry of \<open>key\<close> is
  \<open>v\<close>, whatever the earlier lines set.  No two entries of the metadata share a key.
  The witness is the block \<open>title: A\<close>, \<open>title: B\<close>, \<open>kind: x\<close>, whose title is \<open>B\<close>.
\<close>

theorem last_occurrence_wins:
  assumes "re_match content = Some (block, rest)"
    and "split NL block = earlier @ line # later"
    and "parse_line line = Inr (Some (key, v))"
    and "\<forall>l \<in> set later. \<forall>v'. parse_line l \<noteq> Inr (Some (key, v'))"
  shows "\<exists>md. parse_frontmatter content = Inr (md, strip rest) \<and>
           distinct (map fst md) \<and> filter (\<lambda>e. fst e = key) md = [(key, v)]"
proof -
  obtain md0 where md0: "parse_lines [] earlier = Inr md0"
    using parse_lines_total by blast
  obtain md where md: "parse_lines (AList.update key v md0) later = Inr md"
    using parse_lines_total by blast
  have all: "parse_lines [] (split NL block) = Inr md"
    by (simp add: assms(2,3) parse_lines_append md0 md)
  have d: "distinct (map fst md)"
    using all parse_lines_distinct by fastforce
  have "map_of (AList.update key v md0) key = Some v"
    by (simp add: update_conv')
  then have "map_of md key = Some v"
    using parse_lines_keeps [OF md _ assms(4)] by blast
  with d have "filter (\<lambda>e. fst e = key) md = [(key, v)]"
    by (rule one_entry)
  with d all assms(1) show ?thesis
    by (simp add: parse_frontmatter_def)
qed

theorem last_occurrence_wins_witness:
  "re_match (str ''---\<newline>title: A\<newline>title: B\<newline>kind: x\<newline>---\<newline>text'') =
     Some (str ''title: A\<newline>title: B\<newline>kind: x'', str ''text'') \<and>
   split NL (str ''title: A\<newline>title: B\<newline>kind: x'') =
     [str ''title: A''] @ str ''title: B'' # [str ''kind: x''] \<and>
   parse_line (str ''title: B'') = Inr (Some (str ''title'', Str (str ''B''))) \<and>
   parse_line (str ''kind: x'') = Inr (Some (str ''kind'', Str (str ''x''))) \<and>
   (\<exists>md. parse_frontmatter (str ''---\<newline>title: A\<newline>title: B\<newline>kind: x\<newline>---\<newline>text'') =
           Inr (md, strip (str ''text'')) \<and>
         distinct (map fst md) \<and>
         filter (\<lambda>e. fst e = str ''title'') md = [(str ''title'', Str (str ''B''))])"
proof -
  have a: "re_match (str ''---\<newline>title: A\<newline>title: B\<newline>kind: x\<newline>---\<newline>text'') =
     Some (str ''title: A\<newline>title: B\<newline>kind: x'', str ''text'')"
    by (simp add: parser_defs)
  have b: "split NL (str ''title: A\<newline>title: B\<newline>kind: x'') =
     [str ''title: A''] @ str ''title: B'' # [str ''kind: x'']"
    by (simp add: parser_defs)
  have c: "parse_line (str ''title: B'') = Inr (Some (str ''title'', Str (str ''B'')))"
    by (simp add: parser_defs)
  have k: "parse_line (str ''kind: x'') = Inr (Some (str ''kind'', Str (str ''x'')))"
    by (simp add: parser_defs)
  have "str ''kind'' \<noteq> str ''title''"
    by (simp add: str_def)
  with k have d: "\<forall>l \<in> set [str ''kind: x'']. \<forall>v'. parse_line l \<noteq> Inr (Some (str ''title'', v'))"
    by simp
  from last_occurrence_wins [OF a b c d] a b c k show ?thesis by blast
qed

section \<open>Values\<close>

lemma parse_parts_map:
  "parse_parts items parts =
     items @ map (\<lambda>p. if quoted (strip p) then slice_1_m1 (strip p) else strip p) parts"
  by (induction parts arbitrary: items) (simp_all add: Let_def)

lemma slice_1_m1_wrapped: "slice_1_m1 (a # inner @ [b]) = inner"
  by (simp add: slice_1_m1_def)

lemma startswith_Cons: "startswith (a # s) [b] \<longleftrightarrow> a = b"
  by (simp add: startswith_def)

lemma endswith_snoc: "endswith (s @ [a]) [b] \<longleftrightarrow> a = b"
  by (simp add: endswith_def)

lemma endswith_Cons_snoc: "endswith (c # s @ [a]) [b] \<longleftrightarrow> a = b"
  using endswith_snoc [of "c # s" a b] by simp

lemma parse_value_bracketed:
  "parse_value (LBRACKET # inner @ [RBRACKET]) =
     Lst (if inner = [] then []
          else map (\<lambda>p. if quoted (strip p) then slice_1_m1 (strip p) else strip p)
                 (split COMMA inner))"
  by (simp add: parse_value_def startswith_Cons endswith_Cons_snoc slice_1_m1_wrapped
      parse_parts_map Let_def)

lemma parse_value_scalar:
  "\<not> (startswith v [LBRACKET] \<and> endswith v [RBRACKET]) \<Longrightarrow>
   parse_value v = Str (if quoted v then slice_1_m1 v else v)"
  by (auto simp: parse_value_def Let_def)

lemma strip_all_space:
  assumes "\<forall>c \<in> set s. isspace c"
  shows "strip s = []"
proof -
  from assms have h: "dropWhile isspace s = []"
    by (induction s) simp_all
  show ?thesis unfolding strip_def h by simp
qed

lemma not_quoted_Nil: "\<not> quoted []"
  by (simp add: quoted_def startswith_def)

text \<open>
  Claim C10.  A bracketed value whose interior is not empty and consists of whitespace
  only is the list with one element, the empty string; the interior of a bracketed
  value is empty exactly when the value is the empty list.  The text \<open>labels: [ ]\<close>
  is an instance.
\<close>

theorem whitespace_interior:
  "(inner \<noteq> [] \<and> (\<forall>c \<in> set inner. isspace c) \<longrightarrow>
      parse_value (LBRACKET # inner @ [RBRACKET]) = Lst [[]]) \<and>
   (parse_value (LBRACKET # inner @ [RBRACKET]) = Lst [] \<longleftrightarrow> inner = []) \<and>
   parse_frontmatter (str ''---\<newline>labels: [ ]\<newline>---\<newline>'') = Inr ([(str ''labels'', Lst [[]])], [])"
proof (intro conjI impI)
  assume a: "inner \<noteq> [] \<and> (\<forall>c \<in> set inner. isspace c)"
  have "\<not> isspace COMMA"
    by (simp add: isspace_def COMMA_def)
  with a have "COMMA \<notin> set inner" by blast
  then have "split COMMA inner = [inner]"
    by (rule split_no_sep)
  moreover from a have "strip inner = []"
    by (simp add: strip_all_space)
  ultimately show "parse_value (LBRACKET # inner @ [RBRACKET]) = Lst [[]]"
    using a by (simp add: parse_value_bracketed not_quoted_Nil)
next
  show "parse_value (LBRACKET # inner @ [RBRACKET]) = Lst [] \<longleftrightarrow> inner = []"
    using split_not_Nil [of COMMA inner] by (simp add: parse_value_bracketed)
next
  show "parse_frontmatter (str ''---\<newline>labels: [ ]\<newline>---\<newline>'') = Inr ([(str ''labels'', Lst [[]])], [])"
    by (simp add: parser_defs)
qed

theorem whitespace_interior_witness:
  "[32, 9, 32] \<noteq> ([] :: pystr) \<and> list_all isspace [32, 9, 32] \<and>
   parse_value (LBRACKET # [32, 9, 32] @ [RBRACKET]) = Lst [[]]"
proof -
  have "[32, 9, 32] \<noteq> ([] :: pystr) \<and> (\<forall>c \<in> set [32, 9, 32]. isspace c)"
    by (simp add: isspace_def)
  with whitespace_interior [of "[32, 9, 32]"] show ?thesis
    by (simp add: isspace_def)
qed

section \<open>A quote character on its own\<close>

text \<open>
  The examples of bracketed values in the spec: \<open>["a", "b", "c"]\<close> is the list of
  \<open>a\<close>, \<open>b\<close> and \<open>c\<close>, in this order, and \<open>[]\<close> is the empty list.
\<close>

lemma bracketed_examples:
  "parse_value ([LBRACKET] @ quote_item (str ''a'') @ str '', '' @ quote_item (str ''b'') @
                str '', '' @ quote_item (str ''c'') @ [RBRACKET]) =
     Lst [str ''a'', str ''b'', str ''c''] \<and>
   parse_value (str ''[]'') = Lst []"
  by (simp add: quote_item_def parser_defs)

text \<open>
  Claim C4, at the text \<open>labels: ["]\<close>.  The only piece of the list is one double quote,
  which no pair of quotes surrounds; the parser removes it and yields the list whose
  one element is the empty string.
\<close>

theorem lone_quote_piece:
  "parse_frontmatter (str ''---\<newline>labels: ['' @ [DQUOTE] @ str '']\<newline>---\<newline>'') =
     Inr ([(str ''labels'', Lst [[]])], [])"
  by (simp add: parser_defs)

text \<open>
  Claim C5, at the text \<open>title: "\<close>.  The value is one double quote, which no pair of
  quotes surrounds; the parser yields the empty string as the title.
\<close>

theorem lone_quote_scalar:
  "parse_frontmatter (str ''---\<newline>title: '' @ [DQUOTE] @ str ''\<newline>---\<newline>'') =
     Inr ([(str ''title'', Str [])], [])"
  by (simp add: parser_defs)

section \<open>Labels\<close>

lemma extend_labels_concat:
  "extend_labels cmd labels = cmd @ concat (map (\<lambda>label. [Str (str ''--label''), label]) labels)"
  by (induction labels arbitrary: cmd) simp_all

text \<open>
  Claim C8.  For a document with a title: when the \<open>labels\<close> value is a scalar string,
  the issue command has one \<open>--label\<close> argument for every character of the string, each
  followed by that character alone; when it is a list, the command has one \<open>--label\<close>
  argument for every element, followed by the whole element.
\<close>

theorem labels_of_a_scalar:
  assumes "parse_frontmatter content = Inr (md, body)"
    and "map_of md (str ''title'') = Some title"
  shows
    "(map_of md (str ''labels'') = Some (Str s) \<longrightarrow>
        document_cmd content =
          Inr (Some ([Str (str ''gh''), Str (str ''issue''), Str (str ''create''),
                      Str (str ''--title''), title, Str (str ''--body''), Str body] @
                     concat (map (\<lambda>c. [Str (str ''--label''), Str [c]]) s)))) \<and>
     (map_of md (str ''labels'') = Some (Lst items) \<longrightarrow>
        document_cmd content =
          Inr (Some ([Str (str ''gh''), Str (str ''issue''), Str (str ''create''),
                      Str (str ''--title''), title, Str (str ''--body''), Str body] @
                     concat (map (\<lambda>l. [Str (str ''--label''), Str l]) items))))"
proof -
  from assms(2) have ne: "md \<noteq> []" by auto
  show ?thesis
    using assms ne
    by (simp add: document_cmd_def create_cmd_def get_labels_def extend_labels_concat
        map_concat comp_def)
qed

theorem labels_of_a_scalar_witness:
  "parse_frontmatter (str ''---\<newline>title: T\<newline>labels: bug\<newline>---\<newline>text'') =
     Inr ([(str ''title'', Str (str ''T'')), (str ''labels'', Str (str ''bug''))], str ''text'') \<and>
   document_cmd (str ''---\<newline>title: T\<newline>labels: bug\<newline>---\<newline>text'') =
     Inr (Some [Str (str ''gh''), Str (str ''issue''), Str (str ''create''),
                Str (str ''--title''), Str (str ''T''), Str (str ''--body''), Str (str ''text''),
                Str (str ''--label''), Str (str ''b''),
                Str (str ''--label''), Str (str ''u''),
                Str (str ''--label''), Str (str ''g'')])"
proof -
  have p: "parse_frontmatter (str ''---\<newline>title: T\<newline>labels: bug\<newline>---\<newline>text'') =
     Inr ([(str ''title'', Str (str ''T'')), (str ''labels'', Str (str ''bug''))], str ''text'')"
    by (simp add: parser_defs)
  have ne: "str ''title'' \<noteq> str ''labels''"
    by (simp add: str_def)
  have t: "map_of [(str ''title'', Str (str ''T'')), (str ''labels'', Str (str ''bug''))] (str ''title'')
            = Some (Str (str ''T''))"
    by simp
  have l: "map_of [(str ''title'', Str (str ''T'')), (str ''labels'', Str (str ''bug''))] (str ''labels'')
            = Some (Str (str ''bug''))"
    using ne by simp
  from labels_of_a_scalar [OF p t, of "str ''bug''"] l p show ?thesis
    by (simp add: str_def)
qed

section \<open>The duplicate check and failing queries\<close>








section \<open>Paths\<close>





lemma takeWhile_until: "c \<notin> set xs \<Longrightarrow> takeWhile (\<lambda>x. x \<noteq> c) (xs @ c # ys) = xs"
  by (induction xs) auto

lemma dropWhile_until: "c \<notin> set xs \<Longrightarrow> dropWhile (\<lambda>x. x \<noteq> c) (xs @ c # ys) = c # ys"
  by (induction xs) auto









section \<open>A directory with one Markdown file and one text file\<close>



subsection \<open>The skip notice\<close>









subsection \<open>The scenario\<close>




section \<open>Trimming\<close>

lemma set_strip: "set (strip s) \<subseteq> set s"
proof -
  have "set (strip s) \<subseteq> set (dropWhile isspace s)"
    unfolding strip_def using set_dropWhileD by fastforce
  also have "\<dots> \<subseteq> set s"
    using set_dropWhileD by fastforce
  finally show ?thesis .
qed

lemma strip_fixed:
  assumes "s = [] \<or> (\<not> isspace (hd s) \<and> \<not> isspace (last s))"
  shows "strip s = s"
proof (cases "s = []")
  case True
  then show ?thesis by (simp add: strip_def)
next
  case False
  with assms have h: "\<not> isspace (hd s)" and l: "\<not> isspace (last s)" by simp_all
  from False h have a: "dropWhile isspace s = s"
    by (cases s) simp_all
  from False l have b: "dropWhile isspace (rev s) = rev s"
    by (cases s rule: rev_cases) simp_all
  show ?thesis by (simp add: strip_def a b)
qed

lemma strip_ends:
  assumes "strip s \<noteq> []"
  shows "\<not> isspace (hd (strip s)) \<and> \<not> isspace (last (strip s))"
proof -
  let ?t = "dropWhile isspace s"
  let ?r = "dropWhile isspace (rev ?t)"
  from assms have r: "?r \<noteq> []" by (simp add: strip_def)
  then have "\<not> isspace (hd ?r)" by (rule hd_dropWhile)
  moreover from r have "last (strip s) = hd ?r"
    by (simp add: strip_def last_rev)
  ultimately have l: "\<not> isspace (last (strip s))" by simp
  have t: "?t \<noteq> []"
  proof
    assume "?t = []"
    with r show False by simp
  qed
  then have ht: "\<not> isspace (hd ?t)" by (rule hd_dropWhile)
  have "rev ?t = takeWhile isspace (rev ?t) @ ?r" by simp
  then have "?t = rev ?r @ rev (takeWhile isspace (rev ?t))"
    by (metis rev_append rev_rev_ident)
  then have "?t = strip s @ rev (takeWhile isspace (rev ?t))"
    by (simp add: strip_def)
  with assms have "hd ?t = hd (strip s)"
    by (metis hd_append2)
  with ht l show ?thesis by simp
qed

lemma strip_idem: "strip (strip s) = strip s"
  using strip_ends [of s] by (intro strip_fixed) blast

lemma strip_Cons_space: "isspace c \<Longrightarrow> strip (c # s) = strip s"
  by (simp add: strip_def)

lemma strip_snoc_space:
  assumes "isspace c"
  shows "strip (s @ [c]) = strip s"
proof (cases "\<forall>x \<in> set s. isspace x")
  case True
  with assms have "\<forall>x \<in> set (s @ [c]). isspace x" by simp
  then have "strip (s @ [c]) = []" by (rule strip_all_space)
  moreover from True have "strip s = []" by (rule strip_all_space)
  ultimately show ?thesis by simp
next
  case False
  then obtain x where "x \<in> set s" "\<not> isspace x" by blast
  then have "dropWhile isspace (s @ [c]) = dropWhile isspace s @ [c]"
    by (rule dropWhile_append1)
  with assms show ?thesis by (simp add: strip_def)
qed

lemma set_slice_1_m1: "set (slice_1_m1 s) \<subseteq> set s"
proof
  fix x assume "x \<in> set (slice_1_m1 s)"
  then have "x \<in> set (take (length s - 1) s)"
    unfolding slice_1_m1_def by (rule in_set_dropD)
  then show "x \<in> set s" by (rule in_set_takeD)
qed

lemma split_pieces: "p \<in> set (split c s) \<Longrightarrow> c \<notin> set p \<and> set p \<subseteq> set s"
proof (induction s arbitrary: p)
  case Nil
  then show ?case by simp
next
  case (Cons x xs)
  show ?case
  proof (cases "x = c")
    case True
    with Cons show ?thesis by auto
  next
    case False
    obtain q qs where sp: "split c xs = q # qs"
      using split_not_Nil [of c xs] by (cases "split c xs") auto
    with False Cons.prems have "p = x # q \<or> p \<in> set qs" by simp
    then show ?thesis
    proof
      assume "p = x # q"
      moreover from sp Cons.IH [of q] have "c \<notin> set q \<and> set q \<subseteq> set xs" by simp
      ultimately show ?thesis using False by auto
    next
      assume "p \<in> set qs"
      with sp Cons.IH [of p] show ?thesis by auto
    qed
  qed
qed

section \<open>The shape of what the parser stores\<close>

lemma parsed_value_parse_value:
  assumes "NL \<notin> set v"
  shows "parsed_value (parse_value v)"
proof (cases "startswith v [LBRACKET] \<and> endswith v [RBRACKET]")
  case True
  let ?inner = "slice_1_m1 v"
  let ?unq = "\<lambda>p. if quoted (strip p) then slice_1_m1 (strip p) else strip p"
  have "COMMA \<notin> set (?unq p) \<and> NL \<notin> set (?unq p)" if "p \<in> set (split COMMA ?inner)" for p
  proof -
    from that have "COMMA \<notin> set p" "set p \<subseteq> set ?inner"
      using split_pieces by blast+
    with assms have "COMMA \<notin> set p" "NL \<notin> set p"
      using set_slice_1_m1 [of v] by auto
    moreover have "set (?unq p) \<subseteq> set p"
      using set_strip [of p] set_slice_1_m1 [of "strip p"] by auto
    ultimately show ?thesis by blast
  qed
  then have "list_all (\<lambda>p. COMMA \<notin> set (?unq p) \<and> NL \<notin> set (?unq p)) (split COMMA ?inner)"
    unfolding list_all_iff by blast
  then have "list_all (\<lambda>i. COMMA \<notin> set i \<and> NL \<notin> set i) (map ?unq (split COMMA ?inner))"
    by (simp only: list.pred_map comp_def)
  with True show ?thesis
    by (simp add: parse_value_def parse_parts_map Let_def)
next
  case False
  from assms have "NL \<notin> set (slice_1_m1 v)"
    using set_slice_1_m1 [of v] by auto
  with False assms show ?thesis
    by (simp add: parse_value_scalar)
qed

lemma parse_line_Some:
  assumes "parse_line raw = Inr (Some (k, v))"
  shows "COLON \<in> set (strip raw) \<and>
         k = strip (takeWhile (\<lambda>x. x \<noteq> COLON) (strip raw)) \<and>
         v = parse_value (strip (drop 1 (dropWhile (\<lambda>x. x \<noteq> COLON) (strip raw))))"
  using assms by (auto simp: parse_line_def Let_def split1_def split: if_splits)

lemma parsed_entry_parse_line:
  assumes "parse_line raw = Inr (Some (k, v))" and "NL \<notin> set raw"
  shows "parsed_entry (k, v)"
proof -
  let ?line = "strip raw"
  from assms(2) have nl: "NL \<notin> set ?line"
    using set_strip [of raw] by auto
  from parse_line_Some [OF assms(1)]
  have k: "k = strip (takeWhile (\<lambda>x. x \<noteq> COLON) ?line)"
    and v: "v = parse_value (strip (drop 1 (dropWhile (\<lambda>x. x \<noteq> COLON) ?line)))"
    by simp_all
  have "set k \<subseteq> set (takeWhile (\<lambda>x. x \<noteq> COLON) ?line)"
    unfolding k by (rule set_strip)
  moreover have "COLON \<notin> set (takeWhile (\<lambda>x. x \<noteq> COLON) ?line)"
    using set_takeWhileD by fastforce
  moreover have "set (takeWhile (\<lambda>x. x \<noteq> COLON) ?line) \<subseteq> set ?line"
    using set_takeWhileD by fastforce
  ultimately have "COLON \<notin> set k" "NL \<notin> set k"
    using nl by auto
  moreover have "strip k = k"
    unfolding k by (rule strip_idem)
  ultimately have pk: "parsed_key k"
    by (simp add: parsed_key_def)
  have "set (strip (drop 1 (dropWhile (\<lambda>x. x \<noteq> COLON) ?line))) \<subseteq> set ?line"
    using set_strip [of "drop 1 (dropWhile (\<lambda>x. x \<noteq> COLON) ?line)"]
      set_drop_subset [of 1 "dropWhile (\<lambda>x. x \<noteq> COLON) ?line"]
      set_dropWhileD [of _ "\<lambda>x. x \<noteq> COLON" ?line]
    by blast
  with nl have "NL \<notin> set (strip (drop 1 (dropWhile (\<lambda>x. x \<noteq> COLON) ?line)))"
    by auto
  then have "parsed_value v"
    unfolding v by (rule parsed_value_parse_value)
  with pk show ?thesis by (simp add: parsed_entry_def)
qed

lemma set_update:
  "e \<in> set (AList.update k v al) \<Longrightarrow> e = (k, v) \<or> e \<in> set al"
  by (induction al) (auto split: if_splits)

lemma parse_lines_parsed:
  assumes "parse_lines md lines = Inr md'"
    and "list_all parsed_entry md"
    and "\<forall>l \<in> set lines. NL \<notin> set l"
  shows "list_all parsed_entry md'"
  using assms
proof (induction lines arbitrary: md)
  case Nil
  then show ?case by simp
next
  case (Cons line lines)
  obtain r where r: "parse_line line = Inr r"
    using parse_line_total by blast
  show ?case
  proof (cases r)
    case None
    with r Cons show ?thesis by simp
  next
    case (Some kv)
    obtain k v where kv: "kv = (k, v)" by (cases kv)
    from Cons.prems(3) have "NL \<notin> set line" by simp
    with r Some kv have "parsed_entry (k, v)"
      using parsed_entry_parse_line by blast
    with Cons.prems(2) have "list_all parsed_entry (AList.update k v md)"
      using set_update [of _ k v md] by (auto simp: list_all_iff)
    moreover from Cons.prems(1) r Some kv have "parse_lines (AList.update k v md) lines = Inr md'"
      by simp
    moreover from Cons.prems(3) have "\<forall>l \<in> set lines. NL \<notin> set l" by simp
    ultimately show ?thesis using Cons.IH by blast
  qed
qed

lemma parse_frontmatter_parsed:
  assumes "parse_frontmatter content = Inr (md, body)"
  shows "list_all parsed_entry md \<and> distinct (map fst md)"
proof (cases "re_match content")
  case None
  with assms show ?thesis by (simp add: parse_frontmatter_def)
next
  case (Some m)
  obtain block rest where m: "m = (block, rest)" by (cases m)
  with Some assms have pl: "parse_lines [] (split NL block) = Inr md"
    by (auto simp: parse_frontmatter_def split: sum.splits)
  have "\<forall>l \<in> set (split NL block). NL \<notin> set l"
    using split_pieces by blast
  with pl have "list_all parsed_entry md"
    using parse_lines_parsed [of "[]" "split NL block" md] by simp
  moreover from pl have "distinct (map fst md)"
    using parse_lines_distinct [of "[]" "split NL block" md] by simp
  ultimately show ?thesis by simp
qed

section \<open>Reading a written line\<close>

lemma not_space_chars:
  "\<not> isspace COLON" "\<not> isspace DQUOTE" "\<not> isspace LBRACKET" "\<not> isspace RBRACKET"
  "isspace 32" "isspace NL"
  by (simp_all add: isspace_def chars_defs)

lemma quoted_quote_item: "quoted (quote_item i)"
  by (simp add: quoted_def quote_item_def startswith_def endswith_def)

lemma slice_quote_item: "slice_1_m1 (quote_item i) = i"
  by (simp add: quote_item_def slice_1_m1_def)

lemma strip_quote_item: "strip (quote_item i) = quote_item i"
  by (rule strip_fixed) (simp add: quote_item_def not_space_chars)

lemma unquote_written:
  "(if quoted (strip (quote_item i)) then slice_1_m1 (strip (quote_item i))
    else strip (quote_item i)) = i"
  by (simp add: strip_quote_item quoted_quote_item slice_quote_item)

lemma unquote_written_space:
  "(if quoted (strip (32 # quote_item i)) then slice_1_m1 (strip (32 # quote_item i))
    else strip (32 # quote_item i)) = i"
  by (simp add: strip_Cons_space not_space_chars strip_quote_item quoted_quote_item
      slice_quote_item)

lemma comma_free_quote_item: "COMMA \<notin> set i \<Longrightarrow> COMMA \<notin> set (quote_item i)"
  by (simp add: quote_item_def chars_defs)

lemma split_Cons_other:
  "x \<noteq> c \<Longrightarrow> split c xs = q # qs \<Longrightarrow> split c (x # xs) = (x # q) # qs"
  by simp

lemma split_written_items:
  assumes "list_all (\<lambda>i. COMMA \<notin> set i) (i # items)"
  shows "split COMMA (join_with [COMMA, 32] (map quote_item (i # items))) =
           quote_item i # map (\<lambda>x. 32 # quote_item x) items"
  using assms
proof (induction items arbitrary: i)
  case Nil
  then show ?case by (simp add: split_no_sep comma_free_quote_item)
next
  case (Cons j items)
  from Cons.prems have ci: "COMMA \<notin> set (quote_item i)"
    by (simp add: comma_free_quote_item)
  from Cons.prems have "list_all (\<lambda>i. COMMA \<notin> set i) (j # items)" by simp
  then have ih: "split COMMA (join_with [COMMA, 32] (map quote_item (j # items))) =
      quote_item j # map (\<lambda>x. 32 # quote_item x) items"
    by (rule Cons.IH)
  have sp: "32 \<noteq> COMMA" by (simp add: COMMA_def)
  have "join_with [COMMA, 32] (map quote_item (i # j # items)) =
      quote_item i @ COMMA # (32 # join_with [COMMA, 32] (map quote_item (j # items)))"
    by simp
  then have "split COMMA (join_with [COMMA, 32] (map quote_item (i # j # items))) =
      split COMMA (quote_item i) @ split COMMA (32 # join_with [COMMA, 32] (map quote_item (j # items)))"
    by (simp only: split_append_sep)
  also have "split COMMA (quote_item i) = [quote_item i]"
    using ci by (rule split_no_sep)
  also have "split COMMA (32 # join_with [COMMA, 32] (map quote_item (j # items))) =
      (32 # quote_item j) # map (\<lambda>x. 32 # quote_item x) items"
    using sp ih by (rule split_Cons_other)
  finally show ?case by simp
qed

lemma join_with_not_Nil: "piece \<noteq> [] \<Longrightarrow> join_with sep (piece # pieces) \<noteq> []"
  by (cases pieces) simp_all

lemma sep_comma_space: "str '', '' = [COMMA, 32]"
  by (simp add: str_def COMMA_def)

lemma parse_written_list:
  assumes "list_all (\<lambda>i. COMMA \<notin> set i) items"
  shows "parse_value (serialize_value (Lst items)) = Lst items"
proof (cases items)
  case Nil
  then show ?thesis using parse_value_bracketed [of "[]"] by simp
next
  case (Cons i rest)
  have ne: "join_with [COMMA, 32] (map quote_item (i # rest)) \<noteq> []"
    using join_with_not_Nil [of "quote_item i"] by (simp add: quote_item_def)
  have sp: "split COMMA (join_with [COMMA, 32] (map quote_item (i # rest))) =
           quote_item i # map (\<lambda>x. 32 # quote_item x) rest"
    using assms Cons by (intro split_written_items) simp
  have "map (\<lambda>p. if quoted (strip p) then slice_1_m1 (strip p) else strip p)
          (quote_item i # map (\<lambda>x. 32 # quote_item x) rest) = i # rest"
    by (simp add: unquote_written unquote_written_space comp_def del: if_split)
  with ne sp Cons show ?thesis
    by (simp add: parse_value_bracketed sep_comma_space del: join_with.simps map_eq_conv)
qed

lemma parse_written_value:
  assumes "parsed_value v" and "supported_value v"
  shows "parse_value (serialize_value v) = v"
proof (cases v)
  case (Str s)
  with assms(2) show ?thesis by (simp add: parse_value_scalar)
next
  case (Lst items)
  with assms(1) have "list_all (\<lambda>i. COMMA \<notin> set i) items"
    by (simp add: list_all_iff)
  with Lst show ?thesis using parse_written_list by simp
qed

lemma strip_written_value:
  assumes "supported_value v"
  shows "strip (serialize_value v) = serialize_value v"
proof (cases v)
  case (Str s)
  with assms show ?thesis by simp
next
  case (Lst items)
  show ?thesis
    unfolding Lst by (rule strip_fixed) (simp add: not_space_chars)
qed

lemma strip_key_colon:
  assumes "strip k = k"
  shows "dropWhile isspace (k @ COLON # r) = k @ COLON # r"
proof (cases k)
  case Nil
  then show ?thesis by (simp add: not_space_chars)
next
  case (Cons a as)
  with assms have "strip k \<noteq> []" by simp
  then have "\<not> isspace (hd (strip k))" using strip_ends by blast
  with assms Cons show ?thesis by simp
qed

lemma strip_written_line:
  assumes "strip k = k" and "strip sv = sv"
  shows "strip (k @ COLON # 32 # sv) = k @ COLON # (if sv = [] then [] else 32 # sv)"
proof (cases "sv = []")
  case True
  have "strip (k @ [COLON, 32]) = strip ((k @ [COLON]) @ [32])" by simp
  also have "\<dots> = strip (k @ [COLON])"
    using not_space_chars(5) by (rule strip_snoc_space)
  also have "\<dots> = k @ [COLON]"
  proof -
    have "dropWhile isspace (k @ [COLON]) = k @ [COLON]"
      using assms(1) by (rule strip_key_colon)
    then show ?thesis by (simp add: strip_def not_space_chars)
  qed
  finally show ?thesis using True by simp
next
  case False
  with assms(2) have "strip sv \<noteq> []" by simp
  then have "\<not> isspace (last (strip sv))" using strip_ends by blast
  with assms(2) have l: "\<not> isspace (last sv)" by simp
  have a: "dropWhile isspace (k @ COLON # 32 # sv) = k @ COLON # 32 # sv"
    using assms(1) by (rule strip_key_colon)
  from False l have b: "dropWhile isspace (rev sv @ 32 # COLON # rev k) = rev sv @ 32 # COLON # rev k"
    by (cases sv rule: rev_cases) simp_all
  show ?thesis
    using False by (simp add: strip_def a b)
qed

lemma sep_colon_space: "str '': '' = [COLON, 32]"
  by (simp add: str_def COLON_def)

lemma parse_written_line:
  assumes "parsed_entry (k, v)" and "supported_value v"
  shows "parse_line (serialize_line (k, v)) = Inr (Some (k, v))"
proof -
  let ?sv = "serialize_value v"
  let ?rest = "if ?sv = [] then [] else 32 # ?sv"
  from assms(1) have k: "COLON \<notin> set k" "strip k = k" and pv: "parsed_value v"
    by (simp_all add: parsed_entry_def parsed_key_def)
  have sv: "strip ?sv = ?sv"
    using assms(2) by (rule strip_written_value)
  have line: "strip (serialize_line (k, v)) = k @ COLON # ?rest"
    using strip_written_line [OF k(2) sv] by (simp add: serialize_line_def sep_colon_space)
  have tw: "takeWhile (\<lambda>x. x \<noteq> COLON) (k @ COLON # ?rest) = k"
    using k(1) by (rule takeWhile_until)
  have dw: "dropWhile (\<lambda>x. x \<noteq> COLON) (k @ COLON # ?rest) = COLON # ?rest"
    using k(1) by (rule dropWhile_until)
  have sr: "strip ?rest = ?sv"
    using sv by (simp add: strip_Cons_space not_space_chars strip_def)
  have pvv: "parse_value ?sv = v"
    using pv assms(2) by (rule parse_written_value)
  show ?thesis
    unfolding parse_line_def line Let_def split1_def tw dw
    by (simp add: k(2) sr pvv del: if_split)
qed

section \<open>Reading written metadata\<close>

lemma set_join_with: "set (join_with sep pieces) \<subseteq> set sep \<union> \<Union> (set ` set pieces)"
  by (induction sep pieces rule: join_with.induct) auto

lemma written_value_no_NL:
  assumes "parsed_value v"
  shows "NL \<notin> set (serialize_value v)"
proof (cases v)
  case (Str s)
  with assms show ?thesis by simp
next
  case (Lst items)
  with assms have it: "\<forall>i \<in> set items. NL \<notin> set i"
    by (simp add: list_all_iff)
  have "NL \<notin> set (join_with [COMMA, 32] (map quote_item items))"
  proof
    assume "NL \<in> set (join_with [COMMA, 32] (map quote_item items))"
    with set_join_with [of "[COMMA, 32]" "map quote_item items"]
    have "NL \<in> set [COMMA, 32] \<or> (\<exists>i \<in> set items. NL \<in> set (quote_item i))"
      by auto
    with it show False
      by (auto simp: quote_item_def chars_defs)
  qed
  with Lst show ?thesis
    by (simp add: sep_comma_space chars_defs)
qed

lemma written_line_no_NL:
  assumes "parsed_entry e"
  shows "NL \<notin> set (serialize_line e)"
proof -
  from assms have "NL \<notin> set (fst e)" "NL \<notin> set (serialize_value (snd e))"
    by (simp_all add: parsed_entry_def parsed_key_def written_value_no_NL)
  then show ?thesis
    by (simp add: serialize_line_def sep_colon_space chars_defs)
qed

lemma written_line_not_MARKER: "serialize_line e \<noteq> MARKER"
proof
  assume "serialize_line e = MARKER"
  moreover have "COLON \<in> set (serialize_line e)"
    by (simp add: serialize_line_def sep_colon_space)
  ultimately show False by (simp add: MARKER_def chars_defs)
qed

lemma split_join_lines:
  assumes "\<forall>l \<in> set (line # lines). NL \<notin> set l"
  shows "split NL (join_with [NL] (line # lines)) = line # lines"
  using assms
proof (induction lines arbitrary: line)
  case Nil
  then show ?case by (simp add: split_no_sep)
next
  case (Cons next_line lines)
  from Cons.prems have "split NL (join_with [NL] (next_line # lines)) = next_line # lines"
    by (intro Cons.IH) simp
  moreover from Cons.prems have "split NL line = [line]"
    by (simp add: split_no_sep)
  moreover have "join_with [NL] (line # next_line # lines) =
      line @ NL # join_with [NL] (next_line # lines)"
    by simp
  ultimately show ?case
    by (simp only: split_append_sep) simp
qed

lemma startswith_CLOSING_first_line:
  assumes "startswith (x # xs @ CLOSING @ b) CLOSING"
  shows "MARKER \<in> set (tl (split NL (x # xs)))"
proof -
  from assms have "x # xs @ CLOSING @ b = CLOSING @ drop (length CLOSING) (x # xs @ CLOSING @ b)"
    by (metis append_take_drop_id startswith_def)
  then obtain r where r: "x # xs @ CLOSING @ b = NL # MARKER @ NL # r"
    by (simp add: CLOSING_eq)
  then have x: "x = NL" and e: "xs @ NL # (MARKER @ NL # b) = MARKER @ NL # r"
    by (simp_all add: CLOSING_eq)
  from e have "split NL (xs @ NL # (MARKER @ NL # b)) = split NL (MARKER @ NL # r)"
    by simp
  then have "split NL xs @ split NL (MARKER @ NL # b) = MARKER # split NL r"
    by (simp only: split_append_sep split_MARKER) simp
  moreover obtain q qs where "split NL xs = q # qs"
    using split_not_Nil [of NL xs] by (cases "split NL xs") auto
  ultimately have "MARKER \<in> set (split NL xs)" by simp
  with x show ?thesis by simp
qed

lemma tl_split_Cons: "set (tl (split c xs)) \<subseteq> set (tl (split c (x # xs)))"
proof (cases "x = c")
  case True
  then show ?thesis by (cases "split c xs") auto
next
  case False
  then show ?thesis
    using split_not_Nil [of c xs] by (cases "split c xs") auto
qed

lemma find_first_CLOSING_Some:
  "MARKER \<notin> set (tl (split NL a)) \<Longrightarrow> find_first CLOSING (a @ CLOSING @ b) = Some (a, b)"
proof (induction a)
  case Nil
  show ?case by (simp add: CLOSING_def startswith_def)
next
  case (Cons x xs)
  from Cons.prems have "\<not> startswith (x # xs @ CLOSING @ b) CLOSING"
    using startswith_CLOSING_first_line by blast
  moreover from Cons.prems have "MARKER \<notin> set (tl (split NL xs))"
    using tl_split_Cons [of NL xs x] by blast
  then have "find_first CLOSING (xs @ CLOSING @ b) = Some (xs, b)"
    by (rule Cons.IH)
  ultimately show ?case by simp
qed

lemma re_match_written:
  assumes "MARKER \<notin> set (tl (split NL block))"
  shows "re_match (OPENING @ block @ CLOSING @ rest) = Some (block, rest)"
  using find_first_CLOSING_Some [OF assms] by (simp add: re_match_def startswith_def)

lemma update_new_key: "k \<notin> fst ` set al \<Longrightarrow> AList.update k v al = al @ [(k, v)]"
  by (induction al) auto

lemma parse_written_lines:
  assumes "distinct (map fst (acc @ es))"
    and "\<forall>e \<in> set es. parsed_entry e \<and> supported_value (snd e)"
  shows "parse_lines acc (map serialize_line es) = Inr (acc @ es)"
  using assms
proof (induction es arbitrary: acc)
  case Nil
  show ?case by simp
next
  case (Cons e es)
  obtain k v where e: "e = (k, v)" by (cases e)
  with Cons.prems(2) have "parse_line (serialize_line e) = Inr (Some (k, v))"
    using parse_written_line [of k v] by simp
  moreover from Cons.prems(1) e have "k \<notin> fst ` set acc" by auto
  then have "AList.update k v acc = acc @ [(k, v)]"
    by (rule update_new_key)
  moreover have "parse_lines (acc @ [(k, v)]) (map serialize_line es) = Inr ((acc @ [(k, v)]) @ es)"
    using Cons.prems e by (intro Cons.IH) simp_all
  ultimately show ?case using e by simp
qed

text \<open>
  Claim C2.  The metadata that the parser returns for any text, when each of its
  scalar values is one the format supports (trimmed, not wrapped in brackets, not
  wrapped in quotes), is read back unchanged from its written form: the same keys in
  the same order with the same values.  Keys and list values need no condition: the
  parser only stores keys and list items that the written form preserves.
\<close>

theorem round_trip:
  assumes "parse_frontmatter content = Inr (md, body)"
    and "list_all (\<lambda>e. supported_value (snd e)) md"
  shows "parse_frontmatter (serialize md) = Inr (md, [])"
proof -
  from assms(1) have pe: "list_all parsed_entry md" and d: "distinct (map fst md)"
    using parse_frontmatter_parsed by blast+
  let ?lines = "map serialize_line md"
  let ?block = "join_with [NL] ?lines"
  have nl: "\<forall>l \<in> set ?lines. NL \<notin> set l"
    using pe by (auto simp: list_all_iff written_line_no_NL)
  have sp: "split NL ?block = (if md = [] then [[]] else ?lines)"
  proof (cases md)
    case Nil
    then show ?thesis by simp
  next
    case (Cons e es)
    with nl have "split NL (join_with [NL] (serialize_line e # map serialize_line es)) =
        serialize_line e # map serialize_line es"
      by (intro split_join_lines) simp
    with Cons show ?thesis by simp
  qed
  have "MARKER \<notin> set (split NL ?block)"
  proof
    assume "MARKER \<in> set (split NL ?block)"
    then have "MARKER = [] \<or> (\<exists>e. MARKER = serialize_line e)"
      unfolding sp by (auto split: if_splits)
    moreover have "MARKER \<noteq> []"
      by (simp add: MARKER_def)
    ultimately show False
      using written_line_not_MARKER by metis
  qed
  then have "MARKER \<notin> set (tl (split NL ?block))"
    by (meson list.set_sel(2) split_not_Nil)
  then have m: "re_match (serialize md) = Some (?block, [])"
    using re_match_written [of ?block "[]"] by (simp add: serialize_def)
  have pl: "parse_lines [] (split NL ?block) = Inr md"
  proof (cases "md = []")
    case True
    then show ?thesis by (simp add: parse_line_def strip_def)
  next
    case False
    have "parse_lines [] (map serialize_line md) = Inr ([] @ md)"
      using d pe assms(2) by (intro parse_written_lines) (simp_all add: list_all_iff)
    with False sp show ?thesis by simp
  qed
  show ?thesis
    by (simp add: parse_frontmatter_def m pl strip_def)
qed

theorem round_trip_witness:
  "parse_frontmatter (str ''---\<newline>title: Fix login bug\<newline>labels: [bug, 'urgent']\<newline>---\<newline>Steps'') =
     Inr ([(str ''title'', Str (str ''Fix login bug'')),
           (str ''labels'', Lst [str ''bug'', str ''urgent''])], str ''Steps'') \<and>
   list_all (\<lambda>e. supported_value (snd e))
     [(str ''title'', Str (str ''Fix login bug'')),
      (str ''labels'', Lst [str ''bug'', str ''urgent''])] \<and>
   serialize [(str ''title'', Str (str ''Fix login bug'')),
              (str ''labels'', Lst [str ''bug'', str ''urgent''])] =
     str ''---\<newline>title: Fix login bug\<newline>labels: ['' @ [DQUOTE] @ str ''bug'' @ [DQUOTE] @
     str '', '' @ [DQUOTE] @ str ''urgent'' @ [DQUOTE] @ str '']\<newline>---\<newline>'' \<and>
   parse_frontmatter
     (serialize [(str ''title'', Str (str ''Fix login bug'')),
                 (str ''labels'', Lst [str ''bug'', str ''urgent''])]) =
     Inr ([(str ''title'', Str (str ''Fix login bug'')),
           (str ''labels'', Lst [str ''bug'', str ''urgent''])], [])"
proof -
  have a: "parse_frontmatter (str ''---\<newline>title: Fix login bug\<newline>labels: [bug, 'urgent']\<newline>---\<newline>Steps'') =
     Inr ([(str ''title'', Str (str ''Fix login bug'')),
           (str ''labels'', Lst [str ''bug'', str ''urgent''])], str ''Steps'')"
    by (simp add: parser_defs)
  have b: "list_all (\<lambda>e. supported_value (snd e))
     [(str ''title'', Str (str ''Fix login bug'')),
      (str ''labels'', Lst [str ''bug'', str ''urgent''])]"
    by (simp add: parser_defs)
  have c: "serialize [(str ''title'', Str (str ''Fix login bug'')),
              (str ''labels'', Lst [str ''bug'', str ''urgent''])] =
     str ''---\<newline>title: Fix login bug\<newline>labels: ['' @ [DQUOTE] @ str ''bug'' @ [DQUOTE] @
     str '', '' @ [DQUOTE] @ str ''urgent'' @ [DQUOTE] @ str '']\<newline>---\<newline>''"
    by (simp add: serialize_def serialize_line_def quote_item_def parser_defs)
  from round_trip [OF a b] a b c show ?thesis by blast
qed

end
